theory Spec2Isabelle
  imports Main "HOL-Library.Word"
begin

unbundle bit_operations_syntax

section \<open>Data model of distribute.go\<close>

text \<open>
  Go's \<open>uint64\<close> is a 64-bit word. Go's \<open>int\<close> is taken at its width on the 64-bit
  targets (amd64, arm64): a 64-bit word whose addition wraps around silently and whose
  comparison reads it in two's complement (\<open><s\<close>). A Go \<open>string\<close> is a sequence of
  bytes, as a HOL \<open>string\<close> is, so the conversion \<open>[]byte(input)\<close> is the identity.
\<close>

type_synonym uint64 = "64 word"
type_synonym go_int = "64 word"
type_synonym byte = "8 word"

text \<open>
  \<open>type Hasher interface { Hash(input string) uint64 }\<close>. A value of an interface type is
  either \<open>nil\<close> (\<open>None\<close>) or an implementation, which is given by its one method. Calling
  the method of a \<open>nil\<close> interface value panics. The method itself is a function that
  returns for every input, as both implementations of the repository are.
\<close>

type_synonym Hasher = "(string \<Rightarrow> uint64) option"

datatype panic = NilPointerDereference

text \<open>
  The two implementations call library code that is not part of the repository
  (\<open>crypto/md5\<close>, \<open>github.com/cespare/xxhash/v2\<close>); the library function is a parameter.
  \<open>md5.Sum\<close> returns a \<open>[16]byte\<close>, so the slice \<open>hash[:8]\<close> always holds eight bytes, and
  \<open>binary.BigEndian.Uint64\<close> reads them with the first byte as the most significant.
\<close>

definition BigEndian_Uint64 :: "byte list \<Rightarrow> uint64" where
  "BigEndian_Uint64 b = foldl (\<lambda>acc x. push_bit 8 acc OR ucast x) 0 b"

definition MD5Hasher_Hash :: "(string \<Rightarrow> byte list) \<Rightarrow> string \<Rightarrow> uint64" where
  "MD5Hasher_Hash md5_Sum input =
     (let hash = md5_Sum input in BigEndian_Uint64 (take 8 hash))"

definition XXHashHasher_Hash :: "(string \<Rightarrow> uint64) \<Rightarrow> string \<Rightarrow> uint64" where
  "XXHashHasher_Hash xxhash_Sum64 input = xxhash_Sum64 input"

definition MD5Hasher :: "(string \<Rightarrow> byte list) \<Rightarrow> Hasher" where
  "MD5Hasher md5_Sum = Some (MD5Hasher_Hash md5_Sum)"

definition XXHashHasher :: "(string \<Rightarrow> uint64) \<Rightarrow> Hasher" where
  "XXHashHasher xxhash_Sum64 = Some (XXHashHasher_Hash xxhash_Sum64)"

text \<open>
  The package-level variable \<open>var DefaultHasher Hasher = XXHashHasher{}\<close> is the only
  state \<open>RouteRequest\<close> reads besides its arguments. It is made explicit as a record of
  the globals; \<open>init_globals\<close> is its value at program start, and no statement of the
  program assigns to it.
\<close>

record globals =
  DefaultHasher :: Hasher

definition init_globals :: "(string \<Rightarrow> uint64) \<Rightarrow> globals" where
  "init_globals xxhash_Sum64 = \<lparr>DefaultHasher = XXHashHasher xxhash_Sum64\<rparr>"

section \<open>Formatting\<close>

text \<open>
  \<open>fmt.Sprintf\<close> with the verbs the program uses: \<open>%d\<close> on a non-negative \<open>int\<close>
  (decimal, no padding), \<open>%x\<close> on a \<open>uint64\<close> (lower-case hexadecimal, no padding) and
  \<open>%x\<close> on a byte slice (two lower-case hexadecimal digits for each byte).
\<close>

definition digit :: "nat \<Rightarrow> char" where
  "digit n = ''0123456789abcdef'' ! n"

fun Sprintf_d :: "nat \<Rightarrow> string" where
  "Sprintf_d n = (if n < 10 then [digit n] else Sprintf_d (n div 10) @ [digit (n mod 10)])"

fun Sprintf_x :: "nat \<Rightarrow> string" where
  "Sprintf_x n = (if n < 16 then [digit n] else Sprintf_x (n div 16) @ [digit (n mod 16)])"

declare Sprintf_d.simps [simp del]
declare Sprintf_x.simps [simp del]

definition Sprintf_x_bytes :: "byte list \<Rightarrow> string" where
  "Sprintf_x_bytes b = concat (map (\<lambda>x. [digit (unat x div 16), digit (unat x mod 16)]) b)"


section \<open>RouteRequest\<close>

text \<open>
  The loop \<open>for index, percentage := range distribution\<close> of \<open>RouteRequest\<close>, as a
  recursion over the rest of the slice that carries \<open>cumulative\<close> and \<open>index\<close>.
  \<open>Some label\<close> is the \<open>return\<close> inside the loop; \<open>None\<close> is the loop running to its
  end. \<open>index\<close> is below the length of a slice, so \<open>index+1\<close> cannot overflow.
\<close>

fun scan_distribution :: "uint64 \<Rightarrow> go_int \<Rightarrow> nat \<Rightarrow> go_int list \<Rightarrow> string option" where
  "scan_distribution hashValue cumulative index [] = None"
| "scan_distribution hashValue cumulative index (percentage # rest) =
     (let cumulative' = cumulative + percentage in
      if (ucast hashValue :: go_int) <s cumulative'
      then Some (''Group '' @ Sprintf_d (index + 1))
      else scan_distribution hashValue cumulative' (index + 1) rest)"

text \<open>
  \<open>func RouteRequest(requestID string, distribution []int, hasher ...Hasher) (string, string)\<close>
  of distribute.go. The variadic parameter is the list of the hashers supplied.
\<close>

definition RouteRequest ::
  "globals \<Rightarrow> string \<Rightarrow> go_int list \<Rightarrow> Hasher list \<Rightarrow> panic + (string \<times> string)" where
  "RouteRequest g requestID distribution hasher =
     (let chosenHasher = (if length hasher > 0 then hasher ! 0 else DefaultHasher g) in
      case chosenHasher of
        None \<Rightarrow> Inl NilPointerDereference
      | Some Hash \<Rightarrow>
          (let hashValue = Hash requestID mod 100;
               hashString = Sprintf_x (unat hashValue) in
           case scan_distribution hashValue 0 0 distribution of
             Some groupLabel \<Rightarrow> Inr (groupLabel, hashString)
           | None \<Rightarrow> Inr (''Unknown Group'', hashString)))"

text \<open>
  The earlier \<open>RouteRequest(requestID string, distribution []int)\<close> of the repository's
  second file, which hashes with MD5 directly. Its loop is the same text as above.
\<close>

definition RouteRequest_md5 ::
  "(string \<Rightarrow> byte list) \<Rightarrow> string \<Rightarrow> go_int list \<Rightarrow> string \<times> string" where
  "RouteRequest_md5 md5_Sum requestID distribution =
     (let hash = md5_Sum requestID;
          hashValue = BigEndian_Uint64 (take 8 hash) mod 100;
          hashString = Sprintf_x_bytes (take 8 hash) in
      case scan_distribution hashValue 0 0 distribution of
        Some groupLabel \<Rightarrow> (groupLabel, hashString)
      | None \<Rightarrow> (''Unknown Group'', hashString))"

text \<open>
  \<open>m[k]++\<close> on a Go map of counters: a missing key reads as the zero value.
\<close>

definition increment :: "(string \<rightharpoonup> nat) \<Rightarrow> string \<Rightarrow> (string \<rightharpoonup> nat)" where
  "increment m k = m(k \<mapsto> (case m k of Some count \<Rightarrow> count | None \<Rightarrow> 0) + 1)"

text \<open>
  The inner loop of \<open>Test_Distribution\<close>: \<open>iterations\<close> calls of \<open>RouteRequest\<close> with the
  same \<open>id\<close>. The state of the loop is \<open>hashString\<close>, the map \<open>groupCounts\<close> of this
  \<open>id\<close> and the map \<open>overallGroupCounts\<close>. A panic of a call ends the loop.
\<close>

fun Test_Distribution_iterations ::
  "globals \<Rightarrow> string \<Rightarrow> go_int list \<Rightarrow> Hasher \<Rightarrow> nat \<Rightarrow>
   string \<times> (string \<rightharpoonup> nat) \<times> (string \<rightharpoonup> nat) \<Rightarrow>
   panic + (string \<times> (string \<rightharpoonup> nat) \<times> (string \<rightharpoonup> nat))" where
  "Test_Distribution_iterations g id' distribution hasher 0 state = Inr state"
| "Test_Distribution_iterations g id' distribution hasher (Suc n)
     (hashString, groupCounts, overallGroupCounts) =
     (case RouteRequest g id' distribution [hasher] of
        Inl e \<Rightarrow> Inl e
      | Inr (group', hash) \<Rightarrow>
          Test_Distribution_iterations g id' distribution hasher n
            (hash, increment groupCounts group', increment overallGroupCounts group'))"

section \<open>The words of the specification\<close>

text \<open>
  The running cumulative sum \<open>c\<close> after the weight at \<open>index\<close> has been added, in the
  arithmetic of \<open>int\<close>, and the reduced percentage \<open>p\<close> read as a number.
\<close>

definition cumulative_at :: "go_int list \<Rightarrow> nat \<Rightarrow> go_int" where
  "cumulative_at weights index = sum_list (take (index + 1) weights)"

definition percentage_of :: "(string \<Rightarrow> uint64) \<Rightarrow> string \<Rightarrow> nat" where
  "percentage_of Hash identifier = unat (Hash identifier) mod 100"

text \<open>
  A strategy that returns the same hash for every identifier: the specification's
  "a strategy producing \<open>p = 49\<close>". It is the \<open>Hash\<close> method of the concrete inputs
  below.
\<close>

definition constant_Hash :: "uint64 \<Rightarrow> string \<Rightarrow> uint64" where
  "constant_Hash v input = v"

section \<open>Properties of the formatting and of the byte order\<close>

lemma Sprintf_examples:
  "Sprintf_d 1 = ''1''" "Sprintf_d 10 = ''10''" "Sprintf_d 1234 = ''1234''"
  "Sprintf_x 0 = ''0''" "Sprintf_x 99 = ''63''" "Sprintf_x 255 = ''ff''"
  "Sprintf_x_bytes [0xd4, 0x1d, 0x00] = ''d41d00''"
  by (simp_all add: Sprintf_d.simps Sprintf_x.simps Sprintf_x_bytes_def digit_def)

lemma BigEndian_Uint64_example:
  "BigEndian_Uint64 (take 8 [0xd4, 0x1d, 0x8c, 0xd9, 0x8f, 0x00, 0xb2, 0x04,
                             0xe9, 0x80, 0x09, 0x98, 0xec, 0xf8, 0x42, 0x7e]) = 0xd41d8cd98f00b204"
  by (simp add: BigEndian_Uint64_def)




text \<open>On eight bytes \<open>BigEndian_Uint64\<close> is the expression of \<open>binary.BigEndian.Uint64\<close>.\<close>

lemma BigEndian_Uint64_bytes:
  "BigEndian_Uint64 [b0, b1, b2, b3, b4, b5, b6, b7] =
     push_bit 56 (ucast b0) OR push_bit 48 (ucast b1) OR push_bit 40 (ucast b2) OR
     push_bit 32 (ucast b3) OR push_bit 24 (ucast b4) OR push_bit 16 (ucast b5) OR
     push_bit 8 (ucast b6) OR ucast b7"
  by (simp add: BigEndian_Uint64_def push_bit_or push_bit_push_bit ac_simps)

section \<open>Properties of the scan\<close>

lemma RouteRequest_supplied:
  "RouteRequest g requestID distribution (Some Hash # rest) =
     Inr (case scan_distribution (Hash requestID mod 100) 0 0 distribution of
            Some groupLabel \<Rightarrow> groupLabel | None \<Rightarrow> ''Unknown Group'',
          Sprintf_x (unat (Hash requestID mod 100)))"
  by (simp add: RouteRequest_def Let_def split: option.split)

lemma percentage_bound: "unat ((h::uint64) mod 100) < 100"
  by (simp add: unat_mod)

lemma percentage_eq: "unat ((h::uint64) mod 100) = unat h mod 100"
  by (simp add: unat_mod)

lemma scan_first:
  "i < length ws \<Longrightarrow> ucast p <s c + cumulative_at ws i \<Longrightarrow>
   (\<forall>j<i. \<not> ucast p <s c + cumulative_at ws j) \<Longrightarrow>
   scan_distribution p c idx ws = Some (''Group '' @ Sprintf_d (idx + i + 1))"
proof (induction ws arbitrary: c idx i)
  case Nil
  then show ?case by simp
next
  case (Cons w ws)
  show ?case
  proof (cases i)
    case 0
    with Cons.prems show ?thesis by (simp add: cumulative_at_def)
  next
    case (Suc k)
    have nf: "\<not> ucast p <s c + w"
      using Cons.prems(3) Suc by (auto simp: cumulative_at_def dest: spec[where x=0])
    have k: "k < length ws" using Cons.prems(1) Suc by simp
    have a: "ucast p <s (c + w) + cumulative_at ws k"
      using Cons.prems(2) Suc by (simp add: cumulative_at_def add.assoc)
    have b: "\<forall>j<k. \<not> ucast p <s (c + w) + cumulative_at ws j"
    proof (intro allI impI)
      fix j assume "j < k"
      then have "Suc j < i" using Suc by simp
      with Cons.prems(3) have "\<not> ucast p <s c + cumulative_at (w # ws) (Suc j)" by blast
      then show "\<not> ucast p <s (c + w) + cumulative_at ws j"
        by (simp add: cumulative_at_def add.assoc)
    qed
    from Cons.IH[OF k a b, of "idx + 1"] nf Suc show ?thesis by (simp add: Let_def)
  qed
qed

lemma scan_None_iff:
  "scan_distribution p c idx ws = None \<longleftrightarrow>
   (\<forall>k<length ws. \<not> ucast p <s c + cumulative_at ws k)"
proof (induction ws arbitrary: c idx)
  case Nil
  then show ?case by simp
next
  case (Cons w ws)
  have "(\<forall>k<length (w # ws). \<not> ucast p <s c + cumulative_at (w # ws) k) \<longleftrightarrow>
        (\<not> ucast p <s c + w \<and> (\<forall>k<length ws. \<not> ucast p <s (c + w) + cumulative_at ws k))"
    by (auto simp: cumulative_at_def add.assoc All_less_Suc2 less_Suc_eq_0_disj)
  with Cons.IH[of "c + w" "idx + 1"] show ?case by (auto simp: Let_def)
qed

lemma scan_Some_shape:
  "scan_distribution p c idx ws = Some l \<Longrightarrow>
   \<exists>n. idx < n \<and> n \<le> idx + length ws \<and> l = ''Group '' @ Sprintf_d n"
proof (induction ws arbitrary: c idx)
  case Nil
  then show ?case by simp
next
  case (Cons w ws)
  show ?case
  proof (cases "ucast p <s c + w")
    case True
    with Cons.prems have "l = ''Group '' @ Sprintf_d (idx + 1)" by (simp add: Let_def)
    then show ?thesis by (intro exI[of _ "idx + 1"]) simp
  next
    case False
    with Cons.prems have "scan_distribution p (c + w) (idx + 1) ws = Some l" by (simp add: Let_def)
    from Cons.IH[OF this] obtain n where "idx + 1 < n" "n \<le> idx + 1 + length ws" "l = ''Group '' @ Sprintf_d n"
      by blast
    then show ?thesis by (intro exI[of _ n]) simp
  qed
qed

lemma sint_percentage: "sint ((h::uint64) mod 100) = int (unat h mod 100)"
proof -
  have u: "uint (h mod 100) = int (unat h mod 100)"
    by (simp only: uint_nat percentage_eq)
  have b: "uint (h mod 100) < 100" "0 \<le> uint (h mod 100)"
    unfolding u by simp_all
  have "sint (h mod 100) = signed_take_bit 63 (uint (h mod 100))"
    by (simp add: sint_uint)
  also have "\<dots> = uint (h mod 100)"
  proof (rule signed_take_bit_int_eq_self)
    show "- (2 ^ 63) \<le> uint (h mod 100)"
      using b(2) by (rule order_trans[rotated]) simp
    show "uint (h mod 100) < 2 ^ 63"
      using b(1) by (rule less_trans) simp
  qed
  finally show ?thesis using u by simp
qed

lemma sless_percentage:
  "(ucast ((h::uint64) mod 100) :: go_int) <s c \<longleftrightarrow> int (unat h mod 100) < sint c"
  by (simp add: word_sless_alt sint_percentage)

lemma sint_add_no_overflow:
  fixes a b :: go_int
  assumes "0 \<le> sint a" "0 \<le> sint b" "sint a + sint b < 2 ^ 63"
  shows "sint (a + b) = sint a + sint b"
proof -
  have "sint (a + b) = signed_take_bit 63 (sint a + sint b)"
    by (simp add: sint_word_ariths)
  also have "\<dots> = sint a + sint b"
    using assms by (intro signed_take_bit_int_eq_self) auto
  finally show ?thesis .
qed

lemma sum_list_sint_nonneg: "\<forall>w\<in>set ws. 0 \<le> sint w \<Longrightarrow> 0 \<le> sum_list (map sint (ws::go_int list))"
  by (induction ws) auto

lemma scan_nonneg_None_iff:
  assumes "0 \<le> sint c" "sint c \<le> sint (ucast p :: go_int)" "\<forall>w\<in>set ws. 0 \<le> sint w"
    "sint c + sum_list (map sint ws) < 2 ^ 63"
  shows "scan_distribution p c idx ws = None \<longleftrightarrow> sint c + sum_list (map sint ws) \<le> sint (ucast p :: go_int)"
  using assms
proof (induction ws arbitrary: c idx)
  case Nil
  then show ?case by simp
next
  case (Cons w ws)
  have nn: "0 \<le> sum_list (map sint ws)" using Cons.prems(3) by (intro sum_list_sint_nonneg) simp
  have w0: "0 \<le> sint w" using Cons.prems(3) by simp
  have "sint c + sint w < 2 ^ 63" using Cons.prems(4) nn by simp
  then have eq: "sint (c + w) = sint c + sint w"
    using Cons.prems(1) w0 by (intro sint_add_no_overflow)
  show ?case
  proof (cases "ucast p <s c + w")
    case True
    then have "sint (ucast p :: go_int) < sint c + sint w" by (simp add: word_sless_alt eq)
    with True nn show ?thesis by (simp add: Let_def)
  next
    case False
    then have le: "sint (c + w) \<le> sint (ucast p :: go_int)" by (simp add: word_sless_alt)
    have "scan_distribution p (c + w) (idx + 1) ws = None \<longleftrightarrow>
          sint (c + w) + sum_list (map sint ws) \<le> sint (ucast p :: go_int)"
      using Cons.prems w0 le eq by (intro Cons.IH) auto
    with False eq show ?thesis by (simp add: Let_def add.assoc)
  qed
qed

lemma Group_not_Unknown: "''Group '' @ s \<noteq> ''Unknown Group''"
  by simp

lemma sless_percentage_id:
  "((h::uint64) mod 100) <s c \<longleftrightarrow> int (unat h mod 100) < sint c"
  using sless_percentage[of h c] by simp

lemma RouteRequest_scan_first:
  assumes "index < length weights"
    and "int (percentage_of Hash identifier) < sint (cumulative_at weights index)"
    and "\<forall>j<index. \<not> int (percentage_of Hash identifier) < sint (cumulative_at weights j)"
  shows "RouteRequest g identifier weights (Some Hash # rest) =
           Inr (''Group '' @ Sprintf_d (index + 1), Sprintf_x (percentage_of Hash identifier))"
proof -
  let ?p = "Hash identifier mod 100"
  have a: "ucast ?p <s 0 + cumulative_at weights index"
    using assms(2) by (simp add: sless_percentage_id percentage_of_def)
  have b: "\<forall>j<index. \<not> ucast ?p <s 0 + cumulative_at weights j"
    using assms(3) by (simp add: sless_percentage_id percentage_of_def)
  have "scan_distribution ?p 0 0 weights = Some (''Group '' @ Sprintf_d (0 + index + 1))"
    using assms(1) a b by (rule scan_first)
  then show ?thesis
    by (simp add: RouteRequest_supplied percentage_of_def percentage_eq)
qed

lemma RouteRequest_Unknown_iff:
  "RouteRequest g identifier weights (Some Hash # rest) =
     Inr (''Unknown Group'', Sprintf_x (percentage_of Hash identifier)) \<longleftrightarrow>
   (\<forall>k<length weights. \<not> int (percentage_of Hash identifier) < sint (cumulative_at weights k))"
proof -
  let ?p = "Hash identifier mod 100"
  have "scan_distribution ?p 0 0 weights = None \<longleftrightarrow>
        (\<forall>k<length weights. \<not> int (percentage_of Hash identifier) < sint (cumulative_at weights k))"
    by (simp add: scan_None_iff sless_percentage_id percentage_of_def)
  moreover have "RouteRequest g identifier weights (Some Hash # rest) =
     Inr (''Unknown Group'', Sprintf_x (percentage_of Hash identifier)) \<longleftrightarrow>
     scan_distribution ?p 0 0 weights = None"
  proof (cases "scan_distribution ?p 0 0 weights")
    case None
    then show ?thesis by (simp add: RouteRequest_supplied percentage_of_def percentage_eq)
  next
    case (Some l)
    from scan_Some_shape[OF this] obtain n where "l = ''Group '' @ Sprintf_d n" by blast
    with Some show ?thesis by (simp add: RouteRequest_supplied)
  qed
  ultimately show ?thesis by simp
qed

lemma RouteRequest_Unknown_scan:
  "RouteRequest g identifier weights (Some Hash # rest) =
     Inr (''Unknown Group'', Sprintf_x (percentage_of Hash identifier)) \<longleftrightarrow>
   scan_distribution (Hash identifier mod 100) 0 0 weights = None"
proof (cases "scan_distribution (Hash identifier mod 100) 0 0 weights")
  case None
  then show ?thesis by (simp add: RouteRequest_supplied percentage_of_def percentage_eq)
next
  case (Some l)
  from scan_Some_shape[OF this] obtain n where "l = ''Group '' @ Sprintf_d n" by blast
  with Some show ?thesis by (simp add: RouteRequest_supplied)
qed

lemma iterations_counts:
  assumes "RouteRequest g id' distribution [hasher] = Inr (l, d)"
  shows "Test_Distribution_iterations g id' distribution hasher n
           (hashString, groupCounts, overallGroupCounts) =
         Inr (if n = 0 then (hashString, groupCounts, overallGroupCounts)
              else (d, groupCounts(l \<mapsto> (case groupCounts l of None \<Rightarrow> n | Some c \<Rightarrow> c + n)),
                    overallGroupCounts(l \<mapsto>
                      (case overallGroupCounts l of None \<Rightarrow> n | Some c \<Rightarrow> c + n))))"
proof (induction n arbitrary: hashString groupCounts overallGroupCounts)
  case 0
  show ?case by simp
next
  case (Suc n)
  show ?case
    by (cases "groupCounts l"; cases "overallGroupCounts l")
       (auto simp: assms Suc.IH increment_def fun_upd_def)
qed

lemma RouteRequest_diagnostic:
  "RouteRequest g identifier weights (Some Hash # rest) = Inr (groupLabel, diagnosticHash) \<Longrightarrow>
   diagnosticHash = Sprintf_x (unat (Hash identifier) mod 100)"
  by (simp add: RouteRequest_supplied percentage_eq)

lemma RouteRequest_md5_diagnostic:
  "snd (RouteRequest_md5 md5_Sum requestID distribution) = Sprintf_x_bytes (take 8 (md5_Sum requestID))"
  by (simp add: RouteRequest_md5_def Let_def split: option.split)

lemma RouteRequest_nil_hasher:
  "RouteRequest g requestID distribution (None # rest) = Inl NilPointerDereference"
  by (simp add: RouteRequest_def)



section \<open>The claims\<close>

text \<open>
  C1. For every identifier, weight list and strategy, \<open>RouteRequest\<close> reduces the hash
  to \<open>p = Hash(identifier) mod 100\<close>, a value below 100, and returns the label
  \<open>Group (index+1)\<close> for the first \<open>index\<close> at which \<open>p\<close> is below the running
  cumulative sum. The sum is the one the loop computes, in the arithmetic of \<open>int\<close>.
\<close>

theorem RouteRequest_first_boundary:
  assumes "index < length weights"
    and "int (percentage_of Hash identifier) < sint (cumulative_at weights index)"
    and "\<forall>j<index. \<not> int (percentage_of Hash identifier) < sint (cumulative_at weights j)"
  shows "percentage_of Hash identifier < 100 \<and>
         RouteRequest g identifier weights (Some Hash # rest) =
           Inr (''Group '' @ Sprintf_d (index + 1), Sprintf_x (percentage_of Hash identifier))"
  using RouteRequest_scan_first[OF assms] by (simp add: percentage_of_def)

theorem RouteRequest_first_boundary_witness:
  "(1::nat) < length [70, 30 :: go_int] \<and>
   int (percentage_of (constant_Hash 175) ''Tool-123'') < sint (cumulative_at [70, 30] 1) \<and>
   \<not> int (percentage_of (constant_Hash 175) ''Tool-123'') < sint (cumulative_at [70, 30] 0) \<and>
   percentage_of (constant_Hash 175) ''Tool-123'' = 75 \<and>
   RouteRequest \<lparr>DefaultHasher = None\<rparr> ''Tool-123'' [70, 30] [Some (constant_Hash 175)] =
     Inr (''Group 2'', ''4b'')"
  using RouteRequest_first_boundary[of 1 "[70, 30]" "constant_Hash 175" "''Tool-123''" "\<lparr>DefaultHasher = None\<rparr>" "[]"]
  by (simp add: percentage_of_def constant_Hash_def cumulative_at_def Sprintf_d.simps Sprintf_x.simps digit_def)




text \<open>
  C4. With the weights \<open>[30, 30]\<close>, every identifier reduced to \<open>p \<ge> 60\<close> yields
  \<open>Unknown Group\<close>; with the empty weight list every identifier does, under a supplied
  strategy and under the default one.
\<close>

theorem RouteRequest_fallback:
  "(60 \<le> percentage_of Hash identifier \<longrightarrow>
      RouteRequest g identifier [30, 30] (Some Hash # rest) =
        Inr (''Unknown Group'', Sprintf_x (percentage_of Hash identifier))) \<and>
   RouteRequest g identifier [] (Some Hash # rest) =
     Inr (''Unknown Group'', Sprintf_x (percentage_of Hash identifier)) \<and>
   RouteRequest (init_globals xxhash_Sum64) identifier [] [] =
     Inr (''Unknown Group'', Sprintf_x (percentage_of (XXHashHasher_Hash xxhash_Sum64) identifier))"
proof (intro conjI impI)
  assume "60 \<le> percentage_of Hash identifier"
  then show "RouteRequest g identifier [30, 30] (Some Hash # rest) =
        Inr (''Unknown Group'', Sprintf_x (percentage_of Hash identifier))"
    by (simp add: RouteRequest_Unknown_iff cumulative_at_def All_less_Suc)
next
  show "RouteRequest g identifier [] (Some Hash # rest) =
     Inr (''Unknown Group'', Sprintf_x (percentage_of Hash identifier))"
    by (simp add: RouteRequest_Unknown_iff)
next
  show "RouteRequest (init_globals xxhash_Sum64) identifier [] [] =
     Inr (''Unknown Group'', Sprintf_x (percentage_of (XXHashHasher_Hash xxhash_Sum64) identifier))"
    by (simp add: RouteRequest_def init_globals_def XXHashHasher_def percentage_of_def percentage_eq)
qed

theorem RouteRequest_fallback_witness:
  "60 \<le> percentage_of (constant_Hash 260) ''ID-1'' \<and>
   RouteRequest \<lparr>DefaultHasher = None\<rparr> ''ID-1'' [30, 30] [Some (constant_Hash 260)] =
     Inr (''Unknown Group'', ''3c'')"
  using RouteRequest_fallback[of "constant_Hash 260" "''ID-1''" "\<lparr>DefaultHasher = None\<rparr>" "[]"]
  by (simp add: percentage_of_def constant_Hash_def Sprintf_x.simps digit_def)

text \<open>
  C3. Determinism. With the same identifier, weights and strategy, two calls of
  \<open>RouteRequest\<close> return the same result, whatever the value of the global
  \<open>DefaultHasher\<close> at each call; and after \<open>N \<ge> 1\<close> calls with the same identifier the
  map of the counted labels has exactly one key, which holds the count \<open>N\<close>.
\<close>

theorem RouteRequest_deterministic:
  "RouteRequest g1 identifier weights (Some Hash # rest) =
     RouteRequest g2 identifier weights (Some Hash # rest) \<and>
   (0 < N \<longrightarrow>
     (\<exists>hashString groupCounts overall groupLabel.
        Test_Distribution_iterations g identifier weights (Some Hash) N
          ('''', Map.empty, overallGroupCounts) = Inr (hashString, groupCounts, overall) \<and>
        dom groupCounts = {groupLabel} \<and> groupCounts groupLabel = Some N))"
proof (intro conjI impI)
  show "RouteRequest g1 identifier weights (Some Hash # rest) =
        RouteRequest g2 identifier weights (Some Hash # rest)"
    by (simp only: RouteRequest_supplied)
next
  assume N: "0 < N"
  obtain l d where r: "RouteRequest g identifier weights [Some Hash] = Inr (l, d)"
    by (simp add: RouteRequest_supplied)
  have "\<exists>overall. Test_Distribution_iterations g identifier weights (Some Hash) N
          ('''', Map.empty, overallGroupCounts) = Inr (d, [l \<mapsto> N], overall)"
    using N by (simp add: iterations_counts[OF r])
  then obtain overall where
    "Test_Distribution_iterations g identifier weights (Some Hash) N
          ('''', Map.empty, overallGroupCounts) = Inr (d, [l \<mapsto> N], overall)"
    by blast
  then show "\<exists>hashString groupCounts overall groupLabel.
        Test_Distribution_iterations g identifier weights (Some Hash) N
          ('''', Map.empty, overallGroupCounts) = Inr (hashString, groupCounts, overall) \<and>
        dom groupCounts = {groupLabel} \<and> groupCounts groupLabel = Some N"
    by (intro exI[of _ d] exI[of _ "[l \<mapsto> N]"] exI[of _ overall] exI[of _ l]) simp
qed

theorem RouteRequest_deterministic_witness:
  "(0::nat) < 10 \<and>
   (\<exists>hashString groupCounts overall groupLabel.
      Test_Distribution_iterations \<lparr>DefaultHasher = None\<rparr> ''ID-1'' [50, 50]
        (Some (constant_Hash 255)) 10 ('''', Map.empty, Map.empty) =
          Inr (hashString, groupCounts, overall) \<and>
      dom groupCounts = {groupLabel} \<and> groupCounts groupLabel = Some 10)"
  using RouteRequest_deterministic[of "\<lparr>DefaultHasher = None\<rparr>" "''ID-1''" "[50, 50]"
          "constant_Hash 255" "[]" "\<lparr>DefaultHasher = None\<rparr>" 10 "\<lparr>DefaultHasher = None\<rparr>" Map.empty]
  by simp

text \<open>
  C5 as amended. \<open>RouteRequest\<close> returns \<open>Unknown Group\<close> exactly when no running
  cumulative sum exceeds \<open>p\<close>. For a weight list without a negative entry whose sum
  fits in \<open>int\<close> this is the same as \<open>sum(weights) \<le> p\<close>.
\<close>

theorem RouteRequest_Unknown_characterised:
  "(RouteRequest g identifier weights (Some Hash # rest) =
      Inr (''Unknown Group'', Sprintf_x (percentage_of Hash identifier)) \<longleftrightarrow>
    (\<forall>k<length weights. \<not> int (percentage_of Hash identifier) < sint (cumulative_at weights k))) \<and>
   ((\<forall>w\<in>set weights. 0 \<le> sint w) \<and> sum_list (map sint weights) < 2 ^ 63 \<longrightarrow>
    (RouteRequest g identifier weights (Some Hash # rest) =
       Inr (''Unknown Group'', Sprintf_x (percentage_of Hash identifier)) \<longleftrightarrow>
     sum_list (map sint weights) \<le> int (percentage_of Hash identifier)))"
proof (intro conjI impI)
  show "RouteRequest g identifier weights (Some Hash # rest) =
      Inr (''Unknown Group'', Sprintf_x (percentage_of Hash identifier)) \<longleftrightarrow>
    (\<forall>k<length weights. \<not> int (percentage_of Hash identifier) < sint (cumulative_at weights k))"
    by (rule RouteRequest_Unknown_iff)
next
  assume a: "(\<forall>w\<in>set weights. 0 \<le> sint w) \<and> sum_list (map sint weights) < 2 ^ 63"
  let ?p = "Hash identifier mod 100"
  have "scan_distribution ?p 0 0 weights = None \<longleftrightarrow>
        sint (0::go_int) + sum_list (map sint weights) \<le> sint (ucast ?p :: go_int)"
    using a by (intro scan_nonneg_None_iff) (simp_all add: sint_percentage)
  then have "scan_distribution ?p 0 0 weights = None \<longleftrightarrow>
        sum_list (map sint weights) \<le> int (percentage_of Hash identifier)"
    by (simp add: sint_percentage percentage_of_def)
  then show "RouteRequest g identifier weights (Some Hash # rest) =
       Inr (''Unknown Group'', Sprintf_x (percentage_of Hash identifier)) \<longleftrightarrow>
     sum_list (map sint weights) \<le> int (percentage_of Hash identifier)"
    by (simp only: RouteRequest_Unknown_scan)
qed

theorem RouteRequest_Unknown_characterised_witness:
  "0 \<le> sint (30 :: go_int) \<and> sum_list (map sint [30, 30 :: go_int]) < 2 ^ 63 \<and>
   sum_list (map sint [30, 30 :: go_int]) \<le> int (percentage_of (constant_Hash 275) ''ID-1'') \<and>
   \<not> int (percentage_of (constant_Hash 275) ''ID-1'') < sint (cumulative_at [30, 30] 0) \<and>
   \<not> int (percentage_of (constant_Hash 275) ''ID-1'') < sint (cumulative_at [30, 30] 1) \<and>
   RouteRequest \<lparr>DefaultHasher = None\<rparr> ''ID-1'' [30, 30] [Some (constant_Hash 275)] =
     Inr (''Unknown Group'', ''4b'')"
  using RouteRequest_Unknown_characterised[of "\<lparr>DefaultHasher = None\<rparr>" "''ID-1''" "[30, 30]" "constant_Hash 275" "[]"]
  by (simp add: percentage_of_def constant_Hash_def cumulative_at_def All_less_Suc Sprintf_x.simps digit_def)

text \<open>
  C5 as stated fails with a negative weight: for \<open>[50, -50]\<close> and \<open>p = 10\<close> the sum is
  \<open>0 \<le> p\<close>, yet the first boundary \<open>50\<close> captures \<open>p\<close> and the result is \<open>Group 1\<close>.
\<close>

theorem RouteRequest_Unknown_sum_counterexample:
  "\<not> (RouteRequest \<lparr>DefaultHasher = None\<rparr> ''ID-1'' [50, - 50] [Some (constant_Hash 10)] =
        Inr (''Unknown Group'', ''a'') \<longleftrightarrow>
      sum_list (map sint [50, - 50 :: go_int]) \<le> int (percentage_of (constant_Hash 10) ''ID-1''))"
  by (simp add: RouteRequest_def constant_Hash_def percentage_of_def Sprintf_d.simps Sprintf_x.simps
      digit_def word_sless_alt)

text \<open>
  C6. \<open>RouteRequest\<close> returns a regular pair for every identifier and every weight
  list, with a supplied strategy and with the default one; the loop is a structural
  recursion over the weight list.
\<close>

theorem RouteRequest_total:
  "(\<exists>groupLabel diagnosticHash.
      RouteRequest g identifier weights (Some Hash # rest) = Inr (groupLabel, diagnosticHash)) \<and>
   (\<exists>groupLabel diagnosticHash.
      RouteRequest (init_globals xxhash_Sum64) identifier weights [] = Inr (groupLabel, diagnosticHash))"
  by (auto simp: RouteRequest_def init_globals_def XXHashHasher_def Let_def split: option.split)

text \<open>
  C7. The second component of the result is the hexadecimal rendering of the reduced
  value \<open>Hash(identifier) mod 100\<close>, not of the raw hash: a strategy that hashes to
  \<open>255\<close> gives \<open>37\<close> (55 in hexadecimal) where the raw hash renders as \<open>ff\<close>.
\<close>

theorem RouteRequest_diagnostic_at_255:
  "RouteRequest \<lparr>DefaultHasher = None\<rparr> ''ID-1'' [50, 50] [Some (constant_Hash 255)] =
     Inr (''Group 2'', ''37'') \<and>
   Sprintf_x (unat (constant_Hash 255 ''ID-1'')) = ''ff''"
  by (simp add: RouteRequest_def constant_Hash_def Sprintf_d.simps Sprintf_x.simps
      digit_def word_sless_alt)

text \<open>
  C8. The label returned is \<open>Unknown Group\<close> or \<open>Group n\<close> for some \<open>n\<close> with
  \<open>1 \<le> n \<le> length(weights)\<close>.
\<close>

theorem RouteRequest_label_shape:
  "\<exists>groupLabel diagnosticHash.
     RouteRequest g identifier weights (Some Hash # rest) = Inr (groupLabel, diagnosticHash) \<and>
     (groupLabel = ''Unknown Group'' \<or>
      (\<exists>n. 1 \<le> n \<and> n \<le> length weights \<and> groupLabel = ''Group '' @ Sprintf_d n))"
proof (cases "scan_distribution (Hash identifier mod 100) 0 0 weights")
  case None
  then show ?thesis by (simp add: RouteRequest_supplied)
next
  case (Some l)
  from scan_Some_shape[OF this] obtain n where "0 < n" "n \<le> 0 + length weights" "l = ''Group '' @ Sprintf_d n"
    by blast
  then have "\<exists>n. 1 \<le> n \<and> n \<le> length weights \<and> l = ''Group '' @ Sprintf_d n"
    by (intro exI[of _ n]) simp
  with Some show ?thesis by (simp add: RouteRequest_supplied)
qed


text \<open>
  C10. Two calls with the same weight list whose identifiers reduce to the same
  percentage, under whatever strategies, return the same pair.
\<close>

theorem RouteRequest_depends_on_percentage:
  assumes "percentage_of s1 id1 = percentage_of s2 id2"
  shows "RouteRequest g1 id1 weights [Some s1] = RouteRequest g2 id2 weights [Some s2]"
proof -
  have "unat (s1 id1 mod 100) = unat (s2 id2 mod 100)"
    using assms by (simp only: percentage_of_def percentage_eq)
  then have "s1 id1 mod 100 = s2 id2 mod 100"
    by (simp only: word_unat_eq_iff)
  then show ?thesis by (simp only: RouteRequest_supplied)
qed

theorem RouteRequest_depends_on_percentage_witness:
  "percentage_of (constant_Hash 7) ''ID-1'' = percentage_of (constant_Hash 107) ''Tool-2'' \<and>
   RouteRequest \<lparr>DefaultHasher = None\<rparr> ''ID-1'' [50, 50] [Some (constant_Hash 7)] =
     RouteRequest \<lparr>DefaultHasher = None\<rparr> ''Tool-2'' [50, 50] [Some (constant_Hash 107)]"
proof -
  have h: "percentage_of (constant_Hash 7) ''ID-1'' = percentage_of (constant_Hash 107) ''Tool-2''"
    by (simp add: percentage_of_def constant_Hash_def)
  show ?thesis using h RouteRequest_depends_on_percentage[OF h] by simp
qed

end
